theory Spec2Isabelle
  imports Main
begin

section \<open>JavaScript values and array primitives\<close>

text \<open>
  Step identifiers are strings (\<open>S extends string\<close>).  The JavaScript value
  \<open>undefined\<close> is \<open>None\<close>: it is what \<open>steps[0]\<close> yields on an empty array and what
  an object yields for a key it does not own.  The wizard data, a \<open>Partial<T>\<close>, is a
  finite map from field names to field values; the wizard never inspects the values.
\<close>

type_synonym step_id = string

type_synonym 'v partial = "string \<rightharpoonup> 'v"

text \<open>\<open>Array.prototype.indexOf\<close>: the first position holding the element, or \<open>-1\<close>.\<close>

fun indexOf :: "'a list \<Rightarrow> 'a \<Rightarrow> int" where
  "indexOf [] x = - 1"
| "indexOf (y # ys) x =
     (if y = x then 0
      else (let i = indexOf ys x in if i < 0 then - 1 else i + 1))"

text \<open>
  \<open>steps.indexOf(step)\<close> where \<open>step\<close> may be \<open>undefined\<close>: the array holds strings
  only, so \<open>undefined\<close> is never found.
\<close>

definition stepsIndexOf :: "step_id list \<Rightarrow> step_id option \<Rightarrow> int" where
  "stepsIndexOf xs s = (case s of None \<Rightarrow> - 1 | Some k \<Rightarrow> indexOf xs k)"

text \<open>\<open>Array.prototype.includes\<close>.\<close>

definition array_includes :: "'a list \<Rightarrow> 'a \<Rightarrow> bool" where
  "array_includes xs x = (x \<in> set xs)"

text \<open>The indexed read \<open>xs[i]\<close>: \<open>undefined\<close> outside the array.\<close>

definition at_index :: "'a list \<Rightarrow> int \<Rightarrow> 'a option" where
  "at_index xs i = (if 0 \<le> i \<and> i < int (length xs) then Some (xs ! nat i) else None)"

text \<open>A property key made from a step: \<open>undefined\<close> is coerced to the string \<open>undefined\<close>.\<close>

definition property_key :: "step_id option \<Rightarrow> string" where
  "property_key s = (case s of None \<Rightarrow> ''undefined'' | Some k \<Rightarrow> k)"


section \<open>Objects and the order of their keys\<close>

text \<open>
  An object is the list of its own properties in the order in which \<open>Object.keys\<close>
  enumerates them.  That order is not the order in which the properties were written:
  keys that are array indices (canonical decimal numerals below \<open>2^32 - 1\<close>) come
  first, in ascending numeric order, and the other keys follow in the order of their
  creation.
\<close>

definition is_digit :: "char \<Rightarrow> bool" where
  "is_digit c = (48 \<le> (of_char c :: int) \<and> (of_char c :: int) \<le> 57)"

definition numeric_value :: "string \<Rightarrow> int" where
  "numeric_value k = foldl (\<lambda>n c. 10 * n + (of_char c - 48)) 0 k"

definition is_array_index :: "string \<Rightarrow> bool" where
  "is_array_index k =
     (k \<noteq> [] \<and> list_all is_digit k \<and> (if hd k = CHR ''0'' then k = ''0'' else True) \<and>
      numeric_value k < 4294967295)"

text \<open>
  Evaluating \<open>{k1: v1, k2: v2, ...}\<close> defines the properties from left to right; a
  key written twice keeps its first place and takes the later value.
\<close>

fun define_property :: "(string \<times> 'c) list \<Rightarrow> string \<times> 'c \<Rightarrow> (string \<times> 'c) list" where
  "define_property [] e = [e]"
| "define_property (e' # ps) e =
     (if fst e' = fst e then e # ps else e' # define_property ps e)"

definition own_keys_order :: "string list \<Rightarrow> string list" where
  "own_keys_order ks =
     sort_key numeric_value (filter is_array_index ks) @ filter (\<lambda>k. \<not> is_array_index k) ks"

definition own_properties :: "(string \<times> 'c) list \<Rightarrow> (string \<times> 'c) list" where
  "own_properties ps =
     sort_key (\<lambda>e. numeric_value (fst e)) (filter (\<lambda>e. is_array_index (fst e)) ps) @
     filter (\<lambda>e. \<not> is_array_index (fst e)) ps"

text \<open>The object denoted by a literal whose entries are written in the given order.\<close>

definition object_literal :: "(string \<times> 'c) list \<Rightarrow> (string \<times> 'c) list" where
  "object_literal entries = own_properties (foldl define_property [] entries)"


section \<open>Props, state and observable effects\<close>

text \<open>
  \<open>WizardProps\<close>.  The step mapping is the caller's object from step identifier to
  step-view, as the list of its properties in the order in which \<open>Object.keys\<close>
  enumerates them (\<open>object_literal\<close> gives it from the entries as written); an object
  owns each key once.  An optional prop that the caller omits is \<open>None\<close>.  The optional
  callback \<open>onStepChange\<close> is a flag saying whether it was supplied; each of its
  invocations is recorded, with its three arguments, as an observable effect.
  The caller passes the same props at every render of one wizard instance.
\<close>

record ('c, 'v) WizardProps =
  stepMapping :: "(step_id \<times> 'c) list"
  initialData :: "'v partial option"
  trackSteps :: "bool option"
  onStepChange :: bool
  data_testid :: "string option"

text \<open>The two cells of React state held by a wizard instance.\<close>

record 'v WizardState =
  data :: "'v partial"
  step :: "step_id option"

datatype 'v effect =
    OnStepChange "step_id option" "'v partial" int
  | DispatchEvent string "step_id option" int

text \<open>
  \<open>OnStepChange s d i\<close> is one call \<open>onStepChange(s, d, i)\<close>;
  \<open>DispatchEvent n s i\<close> is one \<open>window.dispatchEvent\<close> of a \<open>CustomEvent\<close> named \<open>n\<close>
  whose detail is \<open>{step: s, stepIndex: i}\<close>.
\<close>

text \<open>Default parameter values of the component: \<open>initialData = {}\<close>, \<open>trackSteps = false\<close>.\<close>

definition initialData_of :: "('c, 'v) WizardProps \<Rightarrow> 'v partial" where
  "initialData_of p = (case initialData p of None \<Rightarrow> Map.empty | Some d \<Rightarrow> d)"

definition trackSteps_of :: "('c, 'v) WizardProps \<Rightarrow> bool" where
  "trackSteps_of p = (case trackSteps p of None \<Rightarrow> False | Some b \<Rightarrow> b)"

text \<open>\<open>const steps = Object.keys(stepMapping)\<close>.\<close>

definition steps :: "('c, 'v) WizardProps \<Rightarrow> step_id list" where
  "steps p = map fst (stepMapping p)"

text \<open>\<open>useState(initialData)\<close> and \<open>useState(steps[0])\<close> at mount.\<close>

definition initialState :: "('c, 'v) WizardProps \<Rightarrow> 'v WizardState" where
  "initialState p = \<lparr> data = initialData_of p, step = at_index (steps p) 0 \<rparr>"

text \<open>The derived values handed to the step-view and to the context.\<close>

definition stepIndex :: "('c, 'v) WizardProps \<Rightarrow> 'v WizardState \<Rightarrow> int" where
  "stepIndex p st = stepsIndexOf (steps p) (step st)"

definition totalSteps :: "('c, 'v) WizardProps \<Rightarrow> int" where
  "totalSteps p = int (length (steps p))"


section \<open>The navigation contract\<close>

text \<open>
  Each operation is the handler created by the latest render, so the \<open>step\<close> and
  \<open>data\<close> it closes over are the current state.  It returns the state after its
  \<open>setStep\<close>/\<open>setData\<close> calls and the callback invocations it made, in order.
\<close>

definition nextStep ::
  "('c, 'v) WizardProps \<Rightarrow> 'v WizardState \<Rightarrow> 'v WizardState \<times> 'v effect list" where
  "nextStep p st =
     (let currentIndex = stepsIndexOf (steps p) (step st) in
      if currentIndex + 1 < int (length (steps p)) then
        (let nextStepId = at_index (steps p) (currentIndex + 1) in
         (st\<lparr>step := nextStepId\<rparr>,
          if onStepChange p then [OnStepChange nextStepId (data st) (currentIndex + 1)] else []))
      else (st, []))"

definition prevStep ::
  "('c, 'v) WizardProps \<Rightarrow> 'v WizardState \<Rightarrow> 'v WizardState \<times> 'v effect list" where
  "prevStep p st =
     (let currentIndex = stepsIndexOf (steps p) (step st) in
      if currentIndex - 1 \<ge> 0 then
        (let prevStepId = at_index (steps p) (currentIndex - 1) in
         (st\<lparr>step := prevStepId\<rparr>,
          if onStepChange p then [OnStepChange prevStepId (data st) (currentIndex - 1)] else []))
      else (st, []))"

definition toStep ::
  "('c, 'v) WizardProps \<Rightarrow> step_id \<Rightarrow> 'v WizardState \<Rightarrow> 'v WizardState \<times> 'v effect list" where
  "toStep p stepId st =
     (if array_includes (steps p) stepId then
        (st\<lparr>step := Some stepId\<rparr>,
         if onStepChange p then [OnStepChange (Some stepId) (data st) (indexOf (steps p) stepId)]
         else [])
      else (st, []))"

text \<open>\<open>setData(prev => ({...prev, ...newData}))\<close>: the later spread wins on a shared key.\<close>

definition updateData ::
  "('c, 'v) WizardProps \<Rightarrow> 'v partial \<Rightarrow> 'v WizardState \<Rightarrow> 'v WizardState \<times> 'v effect list" where
  "updateData p newData st = (st\<lparr>data := data st ++ newData\<rparr>, [])"

text \<open>
  \<open>newData || initialData\<close>: an object is truthy, so the argument is taken whenever
  one is passed.
\<close>

definition resetData ::
  "('c, 'v) WizardProps \<Rightarrow> 'v partial option \<Rightarrow> 'v WizardState \<Rightarrow>
     'v WizardState \<times> 'v effect list" where
  "resetData p newData st =
     (let resetToData = (case newData of Some d \<Rightarrow> d | None \<Rightarrow> initialData_of p) in
      (st\<lparr>data := resetToData, step := at_index (steps p) 0\<rparr>,
       if onStepChange p then [OnStepChange (at_index (steps p) 0) resetToData 0] else []))"


text \<open>
  In full, a handler belongs to the render that created it: \<open>nextStep\<close> reads \<open>step\<close>
  and \<open>data\<close> of that render and \<open>setStep\<close> replaces the pending step.  Called through
  the latest render the two states coincide, which is \<open>nextStep\<close> above; several calls
  made inside one event all belong to the same render.
\<close>

definition nextStep_of ::
  "('c, 'v) WizardProps \<Rightarrow> 'v WizardState \<Rightarrow> 'v WizardState \<Rightarrow>
     'v WizardState \<times> 'v effect list" where
  "nextStep_of p rendered st =
     (let currentIndex = stepsIndexOf (steps p) (step rendered) in
      if currentIndex + 1 < int (length (steps p)) then
        (let nextStepId = at_index (steps p) (currentIndex + 1) in
         (st\<lparr>step := nextStepId\<rparr>,
          if onStepChange p then [OnStepChange nextStepId (data rendered) (currentIndex + 1)]
          else []))
      else (st, []))"

text \<open>\<open>n\<close> calls of the \<open>nextStep\<close> of one render, with no render in between.\<close>

fun nextStep_calls ::
  "('c, 'v) WizardProps \<Rightarrow> nat \<Rightarrow> 'v WizardState \<Rightarrow> 'v WizardState \<Rightarrow>
     'v WizardState \<times> 'v effect list" where
  "nextStep_calls p 0 rendered st = (st, [])"
| "nextStep_calls p (Suc n) rendered st =
     (let r = nextStep_of p rendered st; r' = nextStep_calls p n rendered (fst r)
      in (fst r', snd r @ snd r'))"


section \<open>Sequences of operations\<close>

datatype 'v operation =
    NextStep
  | PrevStep
  | ToStep step_id
  | UpdateData "'v partial"
  | ResetData "'v partial option"

fun perform ::
  "('c, 'v) WizardProps \<Rightarrow> 'v operation \<Rightarrow> 'v WizardState \<Rightarrow>
     'v WizardState \<times> 'v effect list" where
  "perform p NextStep st = nextStep p st"
| "perform p PrevStep st = prevStep p st"
| "perform p (ToStep stepId) st = toStep p stepId st"
| "perform p (UpdateData newData) st = updateData p newData st"
| "perform p (ResetData newData) st = resetData p newData st"

text \<open>
  One operation per event, each followed by the re-render that gives the next
  operation its handlers: the state after the whole sequence and every callback
  invocation made on the way.
\<close>

fun run ::
  "('c, 'v) WizardProps \<Rightarrow> 'v operation list \<Rightarrow> 'v WizardState \<Rightarrow>
     'v WizardState \<times> 'v effect list" where
  "run p [] st = (st, [])"
| "run p (a # as) st =
     (let r = perform p a st; r' = run p as (fst r) in (fst r', snd r @ snd r'))"


section \<open>The step-tracking effect\<close>

text \<open>
  The body of the \<open>useEffect\<close>: with \<open>trackSteps\<close> on and a global \<open>window\<close> present
  (the flag \<open>hasWindow\<close>), one \<open>wizard:step-change\<close> event for the step of the
  committed render.
\<close>

definition stepChangeEffect ::
  "('c, 'v) WizardProps \<Rightarrow> bool \<Rightarrow> 'v WizardState \<Rightarrow> 'v effect list" where
  "stepChangeEffect p hasWindow st =
     (if trackSteps_of p \<and> hasWindow then
        [DispatchEvent ''wizard:step-change'' (step st) (stepsIndexOf (steps p) (step st))]
      else [])"

text \<open>
  The effect runs after the first render, and after every later render that
  commits: its dependency list holds \<open>steps\<close>, an array made anew by each render.
  A handler that leaves every state cell identical causes no render, so no effect.
\<close>

definition mount :: "('c, 'v) WizardProps \<Rightarrow> bool \<Rightarrow> 'v WizardState \<times> 'v effect list" where
  "mount p hasWindow = (initialState p, stepChangeEffect p hasWindow (initialState p))"

definition commit ::
  "('c, 'v) WizardProps \<Rightarrow> bool \<Rightarrow> bool \<Rightarrow> 'v WizardState \<times> 'v effect list \<Rightarrow>
     'v WizardState \<times> 'v effect list" where
  "commit p hasWindow rerendered r =
     (fst r, snd r @ (if rerendered then stepChangeEffect p hasWindow (fst r) else []))"

text \<open>
  A navigation handler calls \<open>setStep\<close> only, so the wizard renders again exactly
  when the step it set differs from the step held; \<open>updateData\<close> always stores a
  new object, so it always renders again.
\<close>

datatype navigation = Next | Prev | To step_id

fun navigate ::
  "('c, 'v) WizardProps \<Rightarrow> navigation \<Rightarrow> 'v WizardState \<Rightarrow>
     'v WizardState \<times> 'v effect list" where
  "navigate p Next st = nextStep p st"
| "navigate p Prev st = prevStep p st"
| "navigate p (To stepId) st = toStep p stepId st"

definition navigate_event ::
  "('c, 'v) WizardProps \<Rightarrow> bool \<Rightarrow> navigation \<Rightarrow> 'v WizardState \<Rightarrow>
     'v WizardState \<times> 'v effect list" where
  "navigate_event p hasWindow n st =
     commit p hasWindow (step (fst (navigate p n st)) \<noteq> step st) (navigate p n st)"

definition updateData_event ::
  "('c, 'v) WizardProps \<Rightarrow> bool \<Rightarrow> 'v partial \<Rightarrow> 'v WizardState \<Rightarrow>
     'v WizardState \<times> 'v effect list" where
  "updateData_event p hasWindow newData st =
     commit p hasWindow True (updateData p newData st)"

text \<open>The events among a list of effects.\<close>

fun is_event :: "'v effect \<Rightarrow> bool" where
  "is_event (DispatchEvent n s i) = True"
| "is_event (OnStepChange s d i) = False"

definition events :: "'v effect list \<Rightarrow> 'v effect list" where
  "events es = filter is_event es"




section \<open>Rendering and the shared context\<close>

text \<open>
  The value given to the provider and, field for field, to the step-view.  Its five
  function fields are the operations above bound to the props and the state.
\<close>

record 'v WizardContextType =
  ctx_data :: "'v partial"
  ctx_step :: "step_id option"
  ctx_stepIndex :: int
  ctx_totalSteps :: int
  ctx_trackSteps :: bool

datatype ('c, 'v) element =
    Div string string
  | StepView 'c "'v WizardContextType" string
  | ContextProvider "'v WizardContextType" string "('c, 'v) element"

text \<open>
  \<open>Div t s\<close> is \<open><div data-testid=t>s</div>\<close>; \<open>StepView c v t\<close> is the step-view \<open>c\<close>
  with the props \<open>v\<close> and test id \<open>t\<close>; \<open>ContextProvider v t e\<close> is
  \<open><WizardContext.Provider value=v data-testid=t>e</WizardContext.Provider>\<close>.
\<close>

text \<open>\<open>x || d\<close> on an optional string: the empty string is falsy too.\<close>

definition or_default :: "string option \<Rightarrow> string \<Rightarrow> string" where
  "or_default x d = (case x of None \<Rightarrow> d | Some s \<Rightarrow> if s = [] then d else s)"

definition parentTestId :: "('c, 'v) WizardProps \<Rightarrow> string" where
  "parentTestId p = or_default (data_testid p) ''wizard''"

text \<open>\<open>stepMapping[step]\<close>: the step-view owned under the key, if any.\<close>

definition CurrentStepComponent :: "('c, 'v) WizardProps \<Rightarrow> 'v WizardState \<Rightarrow> 'c option" where
  "CurrentStepComponent p st = map_of (stepMapping p) (property_key (step st))"

definition contextValue :: "('c, 'v) WizardProps \<Rightarrow> 'v WizardState \<Rightarrow> 'v WizardContextType" where
  "contextValue p st =
     \<lparr> ctx_data = data st, ctx_step = step st,
       ctx_stepIndex = stepsIndexOf (steps p) (step st),
       ctx_totalSteps = int (length (steps p)),
       ctx_trackSteps = trackSteps_of p \<rparr>"

definition WizardProvider ::
  "'v WizardContextType \<Rightarrow> string option \<Rightarrow> ('c, 'v) element \<Rightarrow> ('c, 'v) element" where
  "WizardProvider v testid children =
     ContextProvider v (or_default testid ''wizard-provider'' @ ''-provider'') children"

definition Wizard :: "('c, 'v) WizardProps \<Rightarrow> 'v WizardState \<Rightarrow> ('c, 'v) element" where
  "Wizard p st =
     (case CurrentStepComponent p st of
        None \<Rightarrow> Div (parentTestId p @ ''-not-found'') ''Step not found''
      | Some c \<Rightarrow>
          WizardProvider (contextValue p st) (Some (parentTestId p @ ''-provider''))
            (StepView c (contextValue p st)
               (parentTestId p @ ''-step-'' @ property_key (step st))))"

text \<open>
  \<open>useContext(WizardContext)\<close> in a component whose enclosing providers carry the
  values \<open>scope\<close>, innermost first; the context was created with default \<open>undefined\<close>.
\<close>

datatype fault = Error string

definition useContext :: "'a list \<Rightarrow> 'a option" where
  "useContext scope = (case scope of [] \<Rightarrow> None | v # _ \<Rightarrow> Some v)"

definition useWizardContext :: "'v WizardContextType list \<Rightarrow> fault + 'v WizardContextType" where
  "useWizardContext scope =
     (case useContext scope of
        None \<Rightarrow> Inl (Error ''useWizardContext must be used within a Wizard component'')
      | Some context \<Rightarrow> Inr context)"

text \<open>
  The providers around the step-view of a rendered element, innermost first, given
  those around the element; \<open>None\<close> when the element holds no step-view.
\<close>

fun scope_of_view :: "('c, 'v) element \<Rightarrow> 'v WizardContextType list \<Rightarrow>
    'v WizardContextType list option" where
  "scope_of_view (Div t s) outer = None"
| "scope_of_view (StepView c v t) outer = Some outer"
| "scope_of_view (ContextProvider v t e) outer = scope_of_view e (v # outer)"

text \<open>The wizard of the scenarios: steps \<open>a\<close>, \<open>b\<close>, \<open>c\<close>, nothing else supplied.\<close>

definition abc :: "(string, nat) WizardProps" where
  "abc = \<lparr> stepMapping = [(''a'', ''StepA''), (''b'', ''StepB''), (''c'', ''StepC'')],
           initialData = None, trackSteps = None, onStepChange = False,
           data_testid = None \<rparr>"

text \<open>The same wizard with step tracking on and a callback supplied.\<close>

definition abc_tracked :: "(string, nat) WizardProps" where
  "abc_tracked = abc\<lparr>trackSteps := Some True, onStepChange := True\<rparr>"

text \<open>The entries of the step mapping \<open>{a, b, c}\<close> as written.\<close>

definition abc_written :: "(string \<times> string) list" where
  "abc_written = [(''a'', ''StepA''), (''b'', ''StepB''), (''c'', ''StepC'')]"

text \<open>A step mapping written \<open>{b, 2, 1}\<close>, and a wizard over it with a callback.\<close>

definition b21_written :: "(string \<times> string) list" where
  "b21_written = [(''b'', ''StepB''), (''2'', ''Step2''), (''1'', ''Step1'')]"

definition b21 :: "(string, nat) WizardProps" where
  "b21 = abc_tracked\<lparr>stepMapping := object_literal b21_written\<rparr>"


text \<open>A wizard whose step mapping is the empty object.\<close>

definition no_steps :: "(string, nat) WizardProps" where
  "no_steps = abc\<lparr>stepMapping := []\<rparr>"

text \<open>The two invariants of the data model, for one state.\<close>

definition valid_step :: "('c, 'v) WizardProps \<Rightarrow> 'v WizardState \<Rightarrow> bool" where
  "valid_step p st =
     ((case step st of None \<Rightarrow> False | Some k \<Rightarrow> k \<in> set (steps p)) \<and>
      0 \<le> stepIndex p st \<and> stepIndex p st < totalSteps p)"


section \<open>Array lemmas\<close>

lemma indexOf_ge: "- 1 \<le> indexOf xs x"
  by (induction xs) (auto simp: Let_def)

lemma indexOf_lt: "indexOf xs x < int (length xs)"
  by (induction xs) (auto simp: Let_def)

lemma indexOf_mem: "x \<in> set xs \<Longrightarrow> 0 \<le> indexOf xs x"
  by (induction xs) (auto simp: Let_def)

lemma indexOf_notmem: "x \<notin> set xs \<Longrightarrow> indexOf xs x = - 1"
  by (induction xs) (auto simp: Let_def)

lemma indexOf_nth: "x \<in> set xs \<Longrightarrow> xs ! nat (indexOf xs x) = x"
proof (induction xs)
  case Nil
  then show ?case by simp
next
  case (Cons y ys)
  show ?case
  proof (cases "y = x")
    case True
    then show ?thesis by simp
  next
    case False
    with Cons.prems have mem: "x \<in> set ys" by simp
    from indexOf_mem [OF mem] have "nat (indexOf ys x + 1) = Suc (nat (indexOf ys x))"
      by simp
    with False mem Cons.IH indexOf_mem [OF mem] show ?thesis
      by (simp add: Let_def)
  qed
qed

lemma indexOf_distinct: "distinct xs \<Longrightarrow> i < length xs \<Longrightarrow> indexOf xs (xs ! i) = int i"
proof (induction xs arbitrary: i)
  case Nil
  then show ?case by simp
next
  case (Cons y ys)
  show ?case
  proof (cases i)
    case 0
    then show ?thesis by simp
  next
    case (Suc j)
    with Cons.prems have j: "j < length ys" and d: "distinct ys" and ny: "y \<notin> set ys"
      by simp_all
    from j ny have "ys ! j \<noteq> y" by (metis nth_mem)
    with Cons.IH [OF d j] Suc show ?thesis by (simp add: Let_def)
  qed
qed


lemma indexOf_last: "distinct xs \<Longrightarrow> xs \<noteq> [] \<Longrightarrow> indexOf xs (last xs) = int (length xs) - 1"
proof -
  assume d: "distinct xs" and ne: "xs \<noteq> []"
  from ne have lt: "length xs - 1 < length xs" by simp
  from ne have l: "last xs = xs ! (length xs - 1)" by (rule last_conv_nth)
  from ne have n: "int (length xs - 1) = int (length xs) - 1" by (cases xs) simp_all
  from indexOf_distinct [OF d lt] have "indexOf xs (last xs) = int (length xs - 1)"
    by (simp only: l)
  with n show ?thesis by (simp only:)
qed


section \<open>The handlers, case by case\<close>

lemma nextStep_advance:
  assumes d: "distinct (steps p)" and i: "Suc i < length (steps p)"
    and s: "step st = Some (steps p ! i)"
  shows "nextStep p st =
     (st\<lparr>step := Some (steps p ! Suc i)\<rparr>,
      if onStepChange p then [OnStepChange (Some (steps p ! Suc i)) (data st) (int i + 1)] else [])"
proof -
  from i have "i < length (steps p)" by simp
  from indexOf_distinct [OF d this] s have idx: "stepsIndexOf (steps p) (step st) = int i"
    by (simp add: stepsIndexOf_def)
  from i have a: "at_index (steps p) (int i + 1) = Some (steps p ! Suc i)"
    by (simp add: at_index_def nat_add_distrib)
  from i have "int i + 1 < int (length (steps p))" by simp
  with idx a show ?thesis by (simp add: nextStep_def Let_def)
qed

lemma prevStep_retreat:
  assumes d: "distinct (steps p)" and i: "Suc i < length (steps p)"
    and s: "step st = Some (steps p ! Suc i)"
  shows "prevStep p st =
     (st\<lparr>step := Some (steps p ! i)\<rparr>,
      if onStepChange p then [OnStepChange (Some (steps p ! i)) (data st) (int i)] else [])"
proof -
  from indexOf_distinct [OF d i] s have idx: "stepsIndexOf (steps p) (step st) = int i + 1"
    by (simp add: stepsIndexOf_def)
  from i have a: "at_index (steps p) (int i) = Some (steps p ! i)"
    by (simp add: at_index_def)
  with idx show ?thesis by (simp add: prevStep_def Let_def)
qed

lemma nextStep_at_last:
  assumes d: "distinct (steps p)" and ne: "steps p \<noteq> []"
    and s: "step st = Some (last (steps p))"
  shows "nextStep p st = (st, [])"
proof -
  from indexOf_last [OF d ne] s
  have "stepsIndexOf (steps p) (step st) = int (length (steps p)) - 1"
    by (simp add: stepsIndexOf_def)
  then show ?thesis by (simp add: nextStep_def Let_def)
qed

lemma prevStep_at_first:
  assumes ne: "steps p \<noteq> []" and s: "step st = Some (hd (steps p))"
  shows "prevStep p st = (st, [])"
proof -
  from ne s have "stepsIndexOf (steps p) (step st) = 0"
    by (cases "steps p") (simp_all add: stepsIndexOf_def)
  then show ?thesis by (simp add: prevStep_def Let_def)
qed

lemma toStep_unknown: "stepId \<notin> set (steps p) \<Longrightarrow> toStep p stepId st = (st, [])"
  by (simp add: toStep_def array_includes_def)

lemma toStep_known:
  "stepId \<in> set (steps p) \<Longrightarrow>
     toStep p stepId st =
       (st\<lparr>step := Some stepId\<rparr>,
        if onStepChange p then [OnStepChange (Some stepId) (data st) (indexOf (steps p) stepId)]
        else [])"
  by (simp add: toStep_def array_includes_def)


section \<open>Preservation of the step invariant\<close>

lemma valid_step_iff: "valid_step p st \<longleftrightarrow> (\<exists>k. step st = Some k \<and> k \<in> set (steps p))"
  using indexOf_lt [of "steps p"]
  by (auto simp: valid_step_def stepIndex_def totalSteps_def stepsIndexOf_def indexOf_mem
           split: option.splits)

lemma at_index_mem: "at_index xs i = Some k \<Longrightarrow> k \<in> set xs"
  by (auto simp: at_index_def split: if_splits)

lemma at_index_in_range: "0 \<le> i \<Longrightarrow> i < int (length xs) \<Longrightarrow> \<exists>k. at_index xs i = Some k"
  by (simp add: at_index_def)

lemma nextStep_valid: "valid_step p st \<Longrightarrow> valid_step p (fst (nextStep p st))"
proof (cases "stepsIndexOf (steps p) (step st) + 1 < int (length (steps p))")
  case False
  assume "valid_step p st"
  with False show ?thesis by (simp add: nextStep_def)
next
  case True
  assume v: "valid_step p st"
  then have "0 \<le> stepsIndexOf (steps p) (step st) + 1"
    by (simp add: valid_step_def stepIndex_def)
  from at_index_in_range [OF this True] obtain k
    where k: "at_index (steps p) (stepsIndexOf (steps p) (step st) + 1) = Some k" ..
  with True at_index_mem [OF k] show ?thesis
    by (simp add: nextStep_def valid_step_iff Let_def)
qed

lemma prevStep_valid: "valid_step p st \<Longrightarrow> valid_step p (fst (prevStep p st))"
proof (cases "stepsIndexOf (steps p) (step st) - 1 \<ge> 0")
  case False
  assume "valid_step p st"
  with False show ?thesis by (simp add: prevStep_def)
next
  case True
  assume v: "valid_step p st"
  then have "stepsIndexOf (steps p) (step st) - 1 < int (length (steps p))"
    by (simp add: valid_step_def stepIndex_def totalSteps_def)
  from at_index_in_range [OF True this] obtain k
    where k: "at_index (steps p) (stepsIndexOf (steps p) (step st) - 1) = Some k" ..
  with True at_index_mem [OF k] show ?thesis
    by (simp add: prevStep_def valid_step_iff Let_def)
qed

lemma toStep_valid: "valid_step p st \<Longrightarrow> valid_step p (fst (toStep p stepId st))"
  by (simp add: toStep_def valid_step_iff array_includes_def)

lemma updateData_valid: "valid_step p st \<Longrightarrow> valid_step p (fst (updateData p newData st))"
  by (simp add: updateData_def valid_step_iff)

lemma resetData_valid: "steps p \<noteq> [] \<Longrightarrow> valid_step p (fst (resetData p newData st))"
  by (cases "steps p") (simp_all add: resetData_def valid_step_iff at_index_def Let_def)

lemma perform_valid:
  "steps p \<noteq> [] \<Longrightarrow> valid_step p st \<Longrightarrow> valid_step p (fst (perform p a st))"
  by (cases a)
    (simp_all add: nextStep_valid prevStep_valid toStep_valid updateData_valid resetData_valid)

lemma run_valid:
  "steps p \<noteq> [] \<Longrightarrow> valid_step p st \<Longrightarrow> valid_step p (fst (run p as st))"
proof (induction as arbitrary: st)
  case Nil
  then show ?case by simp
next
  case (Cons a as)
  from Cons.prems have "valid_step p (fst (perform p a st))" by (rule perform_valid)
  from Cons.IH [OF Cons.prems(1) this] show ?case by (simp add: Let_def)
qed

lemma initialState_valid: "steps p \<noteq> [] \<Longrightarrow> valid_step p (initialState p)"
  by (cases "steps p") (simp_all add: initialState_def valid_step_iff at_index_def)

lemma resetData_first:
  "steps p = k # ks \<Longrightarrow>
     resetData p newData st =
       (\<lparr>data = (case newData of Some d \<Rightarrow> d | None \<Rightarrow> initialData_of p), step = Some k\<rparr>,
        if onStepChange p
        then [OnStepChange (Some k) (case newData of Some d \<Rightarrow> d | None \<Rightarrow> initialData_of p) 0]
        else [])"
  by (simp add: resetData_def at_index_def Let_def)

section \<open>Events of a committed render\<close>

lemma navigate_no_events: "events (snd (navigate p n st)) = []"
  by (cases n) (simp_all add: nextStep_def prevStep_def toStep_def events_def Let_def)

lemma events_Nil: "events [] = []"
  by (simp add: events_def)

lemma events_append: "events (xs @ ys) = events xs @ events ys"
  by (simp add: events_def)

lemma events_stepChangeEffect: "events (stepChangeEffect p w st) = stepChangeEffect p w st"
  by (simp add: events_def stepChangeEffect_def)

lemma navigate_event_events:
  "events (snd (navigate_event p w n st)) =
     (if step (fst (navigate p n st)) \<noteq> step st then stepChangeEffect p w (fst (navigate p n st))
      else [])"
  by (simp add: navigate_event_def commit_def events_append navigate_no_events
      events_stepChangeEffect events_Nil)

lemma navigate_event_state: "fst (navigate_event p w n st) = fst (navigate p n st)"
  by (simp add: navigate_event_def commit_def)

lemma stepChangeEffect_on:
  "trackSteps p = Some True \<Longrightarrow>
     stepChangeEffect p True st = [DispatchEvent ''wizard:step-change'' (step st) (stepIndex p st)]"
  by (simp add: stepChangeEffect_def trackSteps_of_def stepIndex_def)

section \<open>The rendered element\<close>

lemma Wizard_not_found:
  "CurrentStepComponent p st = None \<Longrightarrow>
     Wizard p st = Div (parentTestId p @ ''-not-found'') ''Step not found''"
  by (simp add: Wizard_def)

lemma Wizard_found:
  "CurrentStepComponent p st = Some c \<Longrightarrow>
     Wizard p st =
       ContextProvider (contextValue p st) (parentTestId p @ ''-provider-provider'')
         (StepView c (contextValue p st) (parentTestId p @ ''-step-'' @ property_key (step st)))"
  by (simp add: Wizard_def WizardProvider_def or_default_def)

lemma CurrentStepComponent_valid:
  "valid_step p st \<Longrightarrow> \<exists>c. CurrentStepComponent p st = Some c"
proof -
  assume "valid_step p st"
  then obtain k where k: "step st = Some k" and m: "k \<in> set (steps p)"
    by (auto simp: valid_step_iff)
  from m have "k \<in> fst ` set (stepMapping p)" by (simp add: steps_def)
  then have "map_of (stepMapping p) k \<noteq> None" by (simp add: map_of_eq_None_iff)
  with k show ?thesis by (simp add: CurrentStepComponent_def property_key_def)
qed

lemma Wizard_reachable:
  "(\<exists>t s. Wizard p (fst (run p as (initialState p))) = Div t s) \<longleftrightarrow> stepMapping p = []"
proof (cases "stepMapping p = []")
  case True
  then have "CurrentStepComponent p (fst (run p as (initialState p))) = None"
    by (simp add: CurrentStepComponent_def)
  from Wizard_not_found [OF this] True show ?thesis by simp
next
  case False
  then have ne: "steps p \<noteq> []" by (simp add: steps_def)
  from CurrentStepComponent_valid [OF run_valid [OF ne initialState_valid [OF ne]]]
  obtain c where "CurrentStepComponent p (fst (run p as (initialState p))) = Some c" ..
  from Wizard_found [OF this] False show ?thesis by simp
qed


section \<open>Key order of an object literal\<close>

lemma insort_key_map_fst:
  "map fst (insort_key (\<lambda>e. f (fst e)) x xs) = insort_key f (fst x) (map fst xs)"
  by (induction xs) simp_all

lemma sort_key_map_fst: "map fst (sort_key (\<lambda>e. f (fst e)) ps) = sort_key f (map fst ps)"
  by (induction ps) (simp_all add: insort_key_map_fst)

lemma filter_map_fst: "map fst (filter (\<lambda>e. P (fst e)) ps) = filter P (map fst ps)"
  by (induction ps) simp_all

lemma keys_own_properties: "map fst (own_properties ps) = own_keys_order (map fst ps)"
  by (simp add: own_properties_def own_keys_order_def sort_key_map_fst
      filter_map_fst [of is_array_index] filter_map_fst [of "\<lambda>k. \<not> is_array_index k"])

lemma define_property_fresh:
  "fst e \<notin> fst ` set ps \<Longrightarrow> define_property ps e = ps @ [e]"
  by (induction ps) auto

lemma foldl_define_property_distinct:
  "distinct (map fst (acc @ es)) \<Longrightarrow> foldl define_property acc es = acc @ es"
proof (induction es arbitrary: acc)
  case Nil
  then show ?case by simp
next
  case (Cons e es)
  from Cons.prems have f: "fst e \<notin> fst ` set acc" by auto
  from Cons.prems have "distinct (map fst ((acc @ [e]) @ es))" by simp
  from Cons.IH [OF this] f show ?case by (simp add: define_property_fresh)
qed

lemma object_literal_keys:
  "distinct (map fst entries) \<Longrightarrow>
     map fst (object_literal entries) = own_keys_order (map fst entries)"
  using foldl_define_property_distinct [of "[]" entries]
  by (simp add: object_literal_def keys_own_properties)

lemma set_own_keys_order: "set (own_keys_order ks) = set ks"
  by (auto simp: own_keys_order_def)

lemma distinct_own_keys_order: "distinct ks \<Longrightarrow> distinct (own_keys_order ks)"
  by (auto simp: own_keys_order_def)

lemma own_keys_order_plain:
  "\<forall>k\<in>set ks. \<not> is_array_index k \<Longrightarrow> own_keys_order ks = ks"
  by (simp add: own_keys_order_def filter_empty_conv)

lemma sorted_hd_least: "xs \<noteq> [] \<Longrightarrow> sorted (map f xs) \<Longrightarrow> x \<in> set xs \<Longrightarrow> f (hd xs) \<le> f x"
  by (cases xs) auto

lemma own_keys_order_index_first:
  assumes "k' \<in> set ks" "is_array_index k'"
  shows "is_array_index (hd (own_keys_order ks)) \<and> hd (own_keys_order ks) \<in> set ks \<and>
     numeric_value (hd (own_keys_order ks)) \<le> numeric_value k'"
proof -
  let ?A = "sort_key numeric_value (filter is_array_index ks)"
  from assms have m: "k' \<in> set ?A" by simp
  then have ne: "?A \<noteq> []" by (metis empty_iff empty_set)
  then have h: "hd (own_keys_order ks) = hd ?A" by (simp add: own_keys_order_def)
  from ne have "hd ?A \<in> set ?A" by (rule hd_in_set)
  then have a: "is_array_index (hd ?A) \<and> hd ?A \<in> set ks" by simp
  have "sorted (map numeric_value ?A)" by (rule sorted_sort_key)
  from sorted_hd_least [OF ne this m] a h show ?thesis by simp
qed

lemma nextStep_of_latest: "nextStep_of p st st = nextStep p st"
  by (simp add: nextStep_of_def nextStep_def)

lemma initial_step_hd:
  "steps p \<noteq> [] \<Longrightarrow>
     step (fst (mount p w)) = Some (hd (steps p)) \<and> stepIndex p (fst (mount p w)) = 0"
  by (cases "steps p")
    (simp_all add: mount_def initialState_def at_index_def stepIndex_def stepsIndexOf_def)

lemma own_keys_order_nonempty: "ks \<noteq> [] \<Longrightarrow> own_keys_order ks \<noteq> []"
  using set_own_keys_order [of ks] by (metis set_empty)

lemma steps_object_literal:
  "distinct (map fst entries) \<Longrightarrow> stepMapping p = object_literal entries \<Longrightarrow>
     steps p = own_keys_order (map fst entries)"
  by (simp add: steps_def object_literal_keys)

lemma nextStep_advances_run:
  "(distinct (steps p) \<and> Suc i < length (steps p) \<and> step st = Some (steps p ! i) \<longrightarrow>
      nextStep p st =
        (st\<lparr>step := Some (steps p ! Suc i)\<rparr>,
         if onStepChange p then [OnStepChange (Some (steps p ! Suc i)) (data st) (int i + 1)]
         else []) \<and>
      stepIndex p (fst (nextStep p st)) = int i + 1) \<and>
   (steps p = [''a'', ''b'', ''c''] \<longrightarrow>
      step (fst (run p [NextStep, NextStep] (initialState p))) = Some ''c'' \<and>
      stepIndex p (fst (run p [NextStep, NextStep] (initialState p))) = 2 \<and>
      nextStep p (fst (run p [NextStep, NextStep] (initialState p))) =
        (fst (run p [NextStep, NextStep] (initialState p)), []) \<and>
      fst (run p [NextStep, NextStep, NextStep] (initialState p)) =
        fst (run p [NextStep, NextStep] (initialState p)) \<and>
      snd (run p [NextStep, NextStep, NextStep] (initialState p)) =
        (if onStepChange p
         then [OnStepChange (Some ''b'') (data (initialState p)) 1,
               OnStepChange (Some ''c'') (data (initialState p)) 2]
         else []))"
proof (intro conjI impI)
  assume h: "distinct (steps p) \<and> Suc i < length (steps p) \<and> step st = Some (steps p ! i)"
  then have d: "distinct (steps p)" and i: "Suc i < length (steps p)"
    and s: "step st = Some (steps p ! i)" by simp_all
  show "nextStep p st =
        (st\<lparr>step := Some (steps p ! Suc i)\<rparr>,
         if onStepChange p then [OnStepChange (Some (steps p ! Suc i)) (data st) (int i + 1)]
         else [])"
    by (rule nextStep_advance [OF d i s])
  from indexOf_distinct [OF d i] show "stepIndex p (fst (nextStep p st)) = int i + 1"
    by (simp add: nextStep_advance [OF d i s] stepIndex_def stepsIndexOf_def)
next
  assume a: "steps p = [''a'', ''b'', ''c'']"
  have r: "run p [NextStep, NextStep] (initialState p) =
      (\<lparr>data = data (initialState p), step = Some ''c''\<rparr>,
       if onStepChange p
         then [OnStepChange (Some ''b'') (data (initialState p)) 1,
               OnStepChange (Some ''c'') (data (initialState p)) 2]
         else [])"
    by (simp add: initialState_def nextStep_def a at_index_def stepsIndexOf_def Let_def)
  have n: "nextStep p \<lparr>data = data (initialState p), step = Some ''c''\<rparr> =
      (\<lparr>data = data (initialState p), step = Some ''c''\<rparr>, [])"
    by (simp add: nextStep_def a stepsIndexOf_def Let_def)
  have r3: "run p [NextStep, NextStep, NextStep] (initialState p) =
      (\<lparr>data = data (initialState p), step = Some ''c''\<rparr>,
       if onStepChange p
         then [OnStepChange (Some ''b'') (data (initialState p)) 1,
               OnStepChange (Some ''c'') (data (initialState p)) 2]
         else [])"
    by (simp add: initialState_def nextStep_def a at_index_def stepsIndexOf_def Let_def)
  show "step (fst (run p [NextStep, NextStep] (initialState p))) = Some ''c''"
    by (simp only: r fst_conv) simp
  show "stepIndex p (fst (run p [NextStep, NextStep] (initialState p))) = 2"
    by (simp only: r fst_conv) (simp add: stepIndex_def stepsIndexOf_def a)
  show "nextStep p (fst (run p [NextStep, NextStep] (initialState p))) =
        (fst (run p [NextStep, NextStep] (initialState p)), [])"
    by (simp only: r fst_conv n)
  show "fst (run p [NextStep, NextStep, NextStep] (initialState p)) =
        fst (run p [NextStep, NextStep] (initialState p))"
    by (simp only: r r3)
  show "snd (run p [NextStep, NextStep, NextStep] (initialState p)) =
        (if onStepChange p
         then [OnStepChange (Some ''b'') (data (initialState p)) 1,
               OnStepChange (Some ''c'') (data (initialState p)) 2]
         else [])"
    by (simp only: r3 snd_conv)
qed

lemma steps_object_literal_order:
  "distinct (map fst entries) \<and> stepMapping p = object_literal entries \<longrightarrow>
      distinct (steps p) \<and> steps p = own_keys_order (map fst entries) \<and>
      ((\<forall>k\<in>set (map fst entries). \<not> is_array_index k) \<longrightarrow> steps p = map fst entries)"
proof (intro impI, elim conjE)
  assume d: "distinct (map fst entries)" and m: "stepMapping p = object_literal entries"
  from steps_object_literal [OF d m] have s: "steps p = own_keys_order (map fst entries)" .
  from d have "distinct (own_keys_order (map fst entries))" by (rule distinct_own_keys_order)
  with s have d': "distinct (steps p)" by (simp only:)
  have "steps p = map fst entries" if "\<forall>k\<in>set (map fst entries). \<not> is_array_index k"
    using own_keys_order_plain [OF that] s by (simp only:)
  with d' s show "distinct (steps p) \<and> steps p = own_keys_order (map fst entries) \<and>
      ((\<forall>k\<in>set (map fst entries). \<not> is_array_index k) \<longrightarrow> steps p = map fst entries)"
    by blast
qed


section \<open>The claims\<close>

text \<open>
  C2.  Out-of-range navigation is ignored: \<open>nextStep\<close> at the last key, \<open>prevStep\<close> at
  the first key and \<open>toStep\<close> with an identifier that is not a key each return the
  state they were given (so \<open>step\<close>, \<open>stepIndex\<close> and \<open>data\<close> are unchanged) and invoke
  no callback.  The handlers have no failing branch: each returns a state and a list
  of invocations.  The keys of an object are pairwise distinct.
\<close>

theorem C2_out_of_range_ignored:
  "(distinct (steps p) \<and> steps p \<noteq> [] \<and> step st = Some (last (steps p)) \<longrightarrow>
      nextStep p st = (st, []) \<and> stepIndex p (fst (nextStep p st)) = stepIndex p st) \<and>
   (steps p \<noteq> [] \<and> step st = Some (hd (steps p)) \<longrightarrow>
      prevStep p st = (st, []) \<and> stepIndex p (fst (prevStep p st)) = stepIndex p st) \<and>
   (stepId \<notin> set (steps p) \<longrightarrow>
      toStep p stepId st = (st, []) \<and> stepIndex p (fst (toStep p stepId st)) = stepIndex p st)"
  by (simp add: nextStep_at_last prevStep_at_first toStep_unknown)

theorem C2_witness:
  "distinct (steps abc) \<and> steps abc \<noteq> [] \<and> Some ''c'' = Some (last (steps abc)) \<and>
   Some ''a'' = Some (hd (steps abc)) \<and> ''zz'' \<notin> set (steps abc) \<and>
   nextStep abc \<lparr>data = [''x'' \<mapsto> 1], step = Some ''c''\<rparr> = (\<lparr>data = [''x'' \<mapsto> 1], step = Some ''c''\<rparr>, []) \<and>
   prevStep abc \<lparr>data = [''x'' \<mapsto> 1], step = Some ''a''\<rparr> = (\<lparr>data = [''x'' \<mapsto> 1], step = Some ''a''\<rparr>, []) \<and>
   toStep abc ''zz'' \<lparr>data = [''x'' \<mapsto> 1], step = Some ''b''\<rparr> = (\<lparr>data = [''x'' \<mapsto> 1], step = Some ''b''\<rparr>, [])"
proof -
  have h: "distinct (steps abc) \<and> steps abc \<noteq> [] \<and> Some ''c'' = Some (last (steps abc)) \<and>
      Some ''a'' = Some (hd (steps abc)) \<and> ''zz'' \<notin> set (steps abc)"
    by (simp add: steps_def abc_def)
  show ?thesis
    using h
      C2_out_of_range_ignored [of abc "\<lparr>data = [''x'' \<mapsto> 1], step = Some ''c''\<rparr>" "''zz''"]
      C2_out_of_range_ignored [of abc "\<lparr>data = [''x'' \<mapsto> 1], step = Some ''a''\<rparr>" "''zz''"]
      C2_out_of_range_ignored [of abc "\<lparr>data = [''x'' \<mapsto> 1], step = Some ''b''\<rparr>" "''zz''"]
    by simp
qed

text \<open>
  C3, amended.  For every wizard whose step mapping has at least one key: in the
  initial state and after any sequence of \<open>nextStep\<close>, \<open>prevStep\<close>, \<open>toStep\<close>,
  \<open>updateData\<close> and \<open>resetData\<close>, the current step is a key of the step mapping and
  \<open>0 \<le> stepIndex < totalSteps\<close>.
\<close>

theorem C3_invariant:
  "stepMapping p \<noteq> [] \<Longrightarrow>
     valid_step p (fst (run p as (initialState p))) \<and>
     (\<exists>k. step (fst (run p as (initialState p))) = Some k \<and> k \<in> set (map fst (stepMapping p))) \<and>
     0 \<le> stepIndex p (fst (run p as (initialState p))) \<and>
     stepIndex p (fst (run p as (initialState p))) < totalSteps p"
proof -
  assume "stepMapping p \<noteq> []"
  then have ne: "steps p \<noteq> []" by (simp add: steps_def)
  from run_valid [OF ne initialState_valid [OF ne]]
  have v: "valid_step p (fst (run p as (initialState p)))" .
  then have "\<exists>k. step (fst (run p as (initialState p))) = Some k \<and> k \<in> set (steps p)"
    by (simp add: valid_step_iff)
  with v show ?thesis by (simp add: valid_step_def steps_def)
qed

theorem C3_witness:
  "stepMapping abc \<noteq> [] \<and>
   valid_step abc
     (fst (run abc [NextStep, ToStep ''zz'', ResetData None, NextStep, NextStep, NextStep, PrevStep]
        (initialState abc))) \<and>
   step (fst (run abc [NextStep, ToStep ''zz'', ResetData None, NextStep, NextStep, NextStep, PrevStep]
        (initialState abc))) = Some ''b''"
proof -
  have h: "stepMapping abc \<noteq> []" by (simp add: abc_def)
  have e: "step (fst (run abc
      [NextStep, ToStep ''zz'', ResetData None, NextStep, NextStep, NextStep, PrevStep]
      (initialState abc))) = Some ''b''"
    by code_simp
  from h e C3_invariant [OF h,
      of "[NextStep, ToStep ''zz'', ResetData None, NextStep, NextStep, NextStep, PrevStep]"]
  show ?thesis by blast
qed

text \<open>
  With the empty step mapping the claim of C3 fails already in the initial state:
  the step is \<open>undefined\<close>, its index is \<open>-1\<close> and there are no steps.
\<close>

theorem C3_counterexample:
  "step (fst (run no_steps [] (initialState no_steps))) = None \<and>
   stepIndex no_steps (fst (run no_steps [] (initialState no_steps))) = - 1 \<and>
   totalSteps no_steps = 0 \<and>
   \<not> valid_step no_steps (fst (run no_steps [] (initialState no_steps)))"
  by (simp add: no_steps_def abc_def initialState_def steps_def at_index_def stepIndex_def
      stepsIndexOf_def totalSteps_def valid_step_def)

text \<open>
  C7, amended.  For every step mapping with at least one key, the state at mount has
  as its step the first key that \<open>Object.keys\<close> enumerates, step index \<open>0\<close>, and the
  caller's \<open>initialData\<close> as its data, the empty record when \<open>initialData\<close> is omitted.
  For a mapping written with distinct keys that first key is the array-index key of
  least numeric value when some key is an array index, and the first key as written
  when none is.
\<close>

theorem C7_initial_state:
  "(stepMapping p = (k, c) # rest \<longrightarrow>
      step (fst (mount p hasWindow)) = Some k \<and> stepIndex p (fst (mount p hasWindow)) = 0) \<and>
   data (fst (mount p hasWindow)) = (case initialData p of None \<Rightarrow> Map.empty | Some d \<Rightarrow> d) \<and>
   (entries \<noteq> [] \<and> distinct (map fst entries) \<and> stepMapping p = object_literal entries \<longrightarrow>
      steps p = own_keys_order (map fst entries) \<and>
      step (fst (mount p hasWindow)) = Some (hd (own_keys_order (map fst entries))) \<and>
      stepIndex p (fst (mount p hasWindow)) = 0 \<and>
      ((\<forall>k'\<in>set (map fst entries). \<not> is_array_index k') \<longrightarrow>
         step (fst (mount p hasWindow)) = Some (fst (hd entries))) \<and>
      (\<forall>k'\<in>set (map fst entries). is_array_index k' \<longrightarrow>
         is_array_index (hd (own_keys_order (map fst entries))) \<and>
         numeric_value (hd (own_keys_order (map fst entries))) \<le> numeric_value k'))"
proof (intro conjI impI)
  assume "stepMapping p = (k, c) # rest"
  then show "step (fst (mount p hasWindow)) = Some k"
    and "stepIndex p (fst (mount p hasWindow)) = 0"
    by (simp_all add: mount_def initialState_def steps_def at_index_def stepIndex_def
        stepsIndexOf_def)
next
  show "data (fst (mount p hasWindow)) = (case initialData p of None \<Rightarrow> Map.empty | Some d \<Rightarrow> d)"
    by (simp add: mount_def initialState_def initialData_of_def)
next
  assume h: "entries \<noteq> [] \<and> distinct (map fst entries) \<and> stepMapping p = object_literal entries"
  then have s: "steps p = own_keys_order (map fst entries)"
    by (simp add: steps_object_literal)
  from h have ne: "own_keys_order (map fst entries) \<noteq> []"
    by (simp add: own_keys_order_nonempty)
  show "steps p = own_keys_order (map fst entries)" by (rule s)
  from ne s initial_step_hd [of p hasWindow]
  show i: "step (fst (mount p hasWindow)) = Some (hd (own_keys_order (map fst entries)))"
    and "stepIndex p (fst (mount p hasWindow)) = 0"
    by simp_all
  show "step (fst (mount p hasWindow)) = Some (fst (hd entries))"
    if "\<forall>k'\<in>set (map fst entries). \<not> is_array_index k'"
    using that h i by (simp add: own_keys_order_plain hd_map)
  show "\<forall>k'\<in>set (map fst entries). is_array_index k' \<longrightarrow>
         is_array_index (hd (own_keys_order (map fst entries))) \<and>
         numeric_value (hd (own_keys_order (map fst entries))) \<le> numeric_value k'"
    using own_keys_order_index_first [of _ "map fst entries"] by blast
qed

theorem C7_witness:
  "b21_written \<noteq> [] \<and> distinct (map fst b21_written) \<and>
   stepMapping b21 = object_literal b21_written \<and>
   map fst b21_written = [''b'', ''2'', ''1''] \<and>
   \<not> is_array_index ''b'' \<and> is_array_index ''2'' \<and> is_array_index ''1'' \<and>
   steps b21 = [''1'', ''2'', ''b''] \<and>
   step (fst (mount b21 True)) = Some ''1'' \<and>
   stepIndex b21 (fst (mount b21 True)) = 0 \<and>
   data (fst (mount b21 True)) = Map.empty \<and>
   abc_written \<noteq> [] \<and> distinct (map fst abc_written) \<and>
   stepMapping abc_tracked = object_literal abc_written \<and>
   map fst abc_written = [''a'', ''b'', ''c''] \<and>
   \<not> is_array_index ''a'' \<and> \<not> is_array_index ''c'' \<and>
   step (fst (mount abc_tracked True)) = Some ''a''"
proof -
  have h: "b21_written \<noteq> [] \<and> distinct (map fst b21_written) \<and>
      stepMapping b21 = object_literal b21_written"
    by (simp add: b21_written_def b21_def)
  have w: "map fst b21_written = [''b'', ''2'', ''1'']" by (simp add: b21_written_def)
  have o: "own_keys_order (map fst b21_written) = [''1'', ''2'', ''b'']" by code_simp
  have x: "\<not> is_array_index ''b'' \<and> is_array_index ''2'' \<and> is_array_index ''1'' \<and>
      \<not> is_array_index ''a'' \<and> \<not> is_array_index ''c''"
    by code_simp
  have i: "initialData b21 = None" by (simp add: b21_def abc_tracked_def abc_def)
  from h w o i C7_initial_state [of b21 "''1''" "''Step1''" "[]" True b21_written]
  have b: "steps b21 = [''1'', ''2'', ''b''] \<and>
      step (fst (mount b21 True)) = Some ''1'' \<and>
      stepIndex b21 (fst (mount b21 True)) = 0 \<and>
      data (fst (mount b21 True)) = Map.empty"
    by simp
  have w': "map fst abc_written = [''a'', ''b'', ''c'']" by (simp add: abc_written_def)
  have l: "stepMapping abc_tracked = object_literal abc_written" by code_simp
  from w' l have h': "abc_written \<noteq> [] \<and> distinct (map fst abc_written) \<and>
      stepMapping abc_tracked = object_literal abc_written"
    by auto
  from w' x have n: "\<forall>k'\<in>set (map fst abc_written). \<not> is_array_index k'" by simp
  have f: "fst (hd abc_written) = ''a''" by (simp add: abc_written_def)
  from h' n C7_initial_state [of abc_tracked "''a''" "''StepA''" "[]" True abc_written]
  have "step (fst (mount abc_tracked True)) = Some (fst (hd abc_written))" by blast
  with f have a: "step (fst (mount abc_tracked True)) = Some ''a''" by (simp only:)
  from h w x b h' w' a show ?thesis by blast
qed

text \<open>
  The claim of C7 that the initial step is the first key in definition order fails
  for the mapping written \<open>{b, 2, 1}\<close>: the wizard mounts on \<open>1\<close>.
\<close>

theorem C7_counterexample:
  "stepMapping b21 = object_literal b21_written \<and>
   fst (hd b21_written) = ''b'' \<and>
   step (fst (mount b21 True)) = Some ''1'' \<and>
   step (fst (mount b21 True)) \<noteq> Some (fst (hd b21_written))"
proof -
  have "step (fst (mount b21 True)) = Some ''1''" by code_simp
  then show ?thesis by (simp add: b21_def b21_written_def)
qed

text \<open>
  C10.  \<open>toStep\<close> with the current step as its argument passes the membership guard:
  the state is unchanged and \<open>onStepChange\<close>, when supplied, is invoked once with the
  unchanged step, the current data and the unchanged step index.
\<close>

theorem C10_toStep_current:
  "step st = Some k \<Longrightarrow> k \<in> set (steps p) \<Longrightarrow>
     toStep p k st =
       (st, if onStepChange p then [OnStepChange (Some k) (data st) (stepIndex p st)] else [])"
  by (simp add: toStep_known stepIndex_def stepsIndexOf_def)

theorem C10_witness:
  "''b'' \<in> set (steps abc_tracked) \<and>
   toStep abc_tracked ''b'' \<lparr>data = Map.empty, step = Some ''b''\<rparr> =
     (\<lparr>data = Map.empty, step = Some ''b''\<rparr>, [OnStepChange (Some ''b'') Map.empty 1])"
proof -
  have h: "''b'' \<in> set (steps abc_tracked)" by (simp add: steps_def abc_tracked_def abc_def)
  have s: "step \<lparr>data = Map.empty :: nat partial, step = Some ''b''\<rparr> = Some ''b''" by simp
  have i: "stepIndex abc_tracked \<lparr>data = Map.empty, step = Some ''b''\<rparr> = 1"
    by (simp add: stepIndex_def stepsIndexOf_def steps_def abc_tracked_def abc_def)
  have c: "onStepChange abc_tracked" by (simp add: abc_tracked_def abc_def)
  show ?thesis using h C10_toStep_current [OF s h] i c by simp
qed

text \<open>
  C1, amended.  With \<open>trackSteps\<close> true and a global \<open>window\<close> present: mounting emits
  one \<open>wizard:step-change\<close> event, for the initial step; a \<open>nextStep\<close>, \<open>prevStep\<close> or
  \<open>toStep\<close> that changes the current step emits exactly one event, whose payload is the
  new step and its index; and a navigation call that leaves the current step as it was
  emits none.  In particular \<open>toStep('b')\<close> from step \<open>a\<close> of the mapping \<open>{a, b, c}\<close>
  emits exactly one event, with payload \<open>{step: 'b', stepIndex: 1}\<close>.
\<close>

theorem C1_step_change_events:
  "trackSteps p = Some True \<Longrightarrow>
     events (snd (mount p True)) =
       [DispatchEvent ''wizard:step-change'' (step (initialState p))
          (stepIndex p (initialState p))] \<and>
     events (snd (navigate_event p True n st)) =
       (if step (fst (navigate_event p True n st)) \<noteq> step st
        then [DispatchEvent ''wizard:step-change'' (step (fst (navigate_event p True n st)))
                (stepIndex p (fst (navigate_event p True n st)))]
        else []) \<and>
     (distinct (steps p) \<and> Suc i < length (steps p) \<and> step st = Some (steps p ! i) \<longrightarrow>
        events (snd (navigate_event p True Next st)) =
          [DispatchEvent ''wizard:step-change'' (Some (steps p ! Suc i)) (int i + 1)]) \<and>
     (distinct (steps p) \<and> Suc i < length (steps p) \<and> step st = Some (steps p ! Suc i) \<longrightarrow>
        events (snd (navigate_event p True Prev st)) =
          [DispatchEvent ''wizard:step-change'' (Some (steps p ! i)) (int i)]) \<and>
     (stepId \<in> set (steps p) \<and> step st \<noteq> Some stepId \<longrightarrow>
        events (snd (navigate_event p True (To stepId) st)) =
          [DispatchEvent ''wizard:step-change'' (Some stepId) (indexOf (steps p) stepId)]) \<and>
     (steps p = [''a'', ''b'', ''c''] \<and> step st = Some ''a'' \<longrightarrow>
        events (snd (navigate_event p True (To ''b'') st)) =
          [DispatchEvent ''wizard:step-change'' (Some ''b'') 1])"
proof -
  assume t: "trackSteps p = Some True"
  have m: "events (snd (mount p True)) =
       [DispatchEvent ''wizard:step-change'' (step (initialState p))
          (stepIndex p (initialState p))]"
    by (simp add: mount_def stepChangeEffect_on [OF t] events_def)
  have g: "events (snd (navigate_event p True n st)) =
       (if step (fst (navigate_event p True n st)) \<noteq> step st
        then [DispatchEvent ''wizard:step-change'' (step (fst (navigate_event p True n st)))
                (stepIndex p (fst (navigate_event p True n st)))]
        else [])"
    by (simp add: navigate_event_events navigate_event_state stepChangeEffect_on [OF t])
  have nx: "distinct (steps p) \<and> Suc i < length (steps p) \<and> step st = Some (steps p ! i) \<longrightarrow>
        events (snd (navigate_event p True Next st)) =
          [DispatchEvent ''wizard:step-change'' (Some (steps p ! Suc i)) (int i + 1)]"
  proof (intro impI, elim conjE)
    assume d: "distinct (steps p)" and i: "Suc i < length (steps p)"
      and s: "step st = Some (steps p ! i)"
    from i have i': "i < length (steps p)" by simp
    from d i i' have ne: "steps p ! Suc i \<noteq> steps p ! i" by (simp add: nth_eq_iff_index_eq)
    from indexOf_distinct [OF d i]
    have "stepsIndexOf (steps p) (Some (steps p ! Suc i)) = int i + 1"
      by (simp add: stepsIndexOf_def)
    with ne s show "events (snd (navigate_event p True Next st)) =
          [DispatchEvent ''wizard:step-change'' (Some (steps p ! Suc i)) (int i + 1)]"
      by (simp add: navigate_event_events nextStep_advance [OF d i s]
          stepChangeEffect_on [OF t] stepIndex_def)
  qed
  have pv: "distinct (steps p) \<and> Suc i < length (steps p) \<and> step st = Some (steps p ! Suc i) \<longrightarrow>
        events (snd (navigate_event p True Prev st)) =
          [DispatchEvent ''wizard:step-change'' (Some (steps p ! i)) (int i)]"
  proof (intro impI, elim conjE)
    assume d: "distinct (steps p)" and i: "Suc i < length (steps p)"
      and s: "step st = Some (steps p ! Suc i)"
    from i have i': "i < length (steps p)" by simp
    from d i i' have ne: "steps p ! i \<noteq> steps p ! Suc i" by (simp add: nth_eq_iff_index_eq)
    from indexOf_distinct [OF d i']
    have "stepsIndexOf (steps p) (Some (steps p ! i)) = int i"
      by (simp add: stepsIndexOf_def)
    with ne s show "events (snd (navigate_event p True Prev st)) =
          [DispatchEvent ''wizard:step-change'' (Some (steps p ! i)) (int i)]"
      by (simp add: navigate_event_events prevStep_retreat [OF d i s]
          stepChangeEffect_on [OF t] stepIndex_def)
  qed
  have to: "stepId \<in> set (steps p) \<and> step st \<noteq> Some stepId \<longrightarrow>
        events (snd (navigate_event p True (To stepId) st)) =
          [DispatchEvent ''wizard:step-change'' (Some stepId) (indexOf (steps p) stepId)]" for stepId
  proof (intro impI, elim conjE)
    assume k: "stepId \<in> set (steps p)" and s: "step st \<noteq> Some stepId"
    from s have "Some stepId \<noteq> step st" by (rule not_sym)
    then show "events (snd (navigate_event p True (To stepId) st)) =
          [DispatchEvent ''wizard:step-change'' (Some stepId) (indexOf (steps p) stepId)]"
      by (simp add: navigate_event_events toStep_known [OF k] stepChangeEffect_on [OF t]
          stepIndex_def stepsIndexOf_def)
  qed
  have sc: "steps p = [''a'', ''b'', ''c''] \<and> step st = Some ''a'' \<longrightarrow>
        events (snd (navigate_event p True (To ''b'') st)) =
          [DispatchEvent ''wizard:step-change'' (Some ''b'') 1]"
  proof (intro impI, elim conjE)
    assume a: "steps p = [''a'', ''b'', ''c'']" and s: "step st = Some ''a''"
    then have "''b'' \<in> set (steps p) \<and> step st \<noteq> Some ''b''" by simp
    with to [of "''b''"] a show "events (snd (navigate_event p True (To ''b'') st)) =
          [DispatchEvent ''wizard:step-change'' (Some ''b'') 1]"
      by simp
  qed
  from m g nx pv to [of stepId] sc show ?thesis by blast
qed

theorem C1_witness:
  "trackSteps abc_tracked = Some True \<and> steps abc_tracked = [''a'', ''b'', ''c''] \<and>
   step (initialState abc_tracked) = Some ''a'' \<and>
   events (snd (navigate_event abc_tracked True (To ''b'') (initialState abc_tracked))) =
     [DispatchEvent ''wizard:step-change'' (Some ''b'') 1] \<and>
   snd (navigate_event abc_tracked True (To ''b'') (initialState abc_tracked)) =
     [OnStepChange (Some ''b'') Map.empty 1, DispatchEvent ''wizard:step-change'' (Some ''b'') 1]"
proof -
  have t: "trackSteps abc_tracked = Some True" by (simp add: abc_tracked_def)
  have a: "steps abc_tracked = [''a'', ''b'', ''c'']" by (simp add: steps_def abc_tracked_def abc_def)
  have s: "step (initialState abc_tracked) = Some ''a''"
    by (simp add: initialState_def a at_index_def)
  have d: "data (initialState abc_tracked) = Map.empty"
    by (simp add: initialState_def initialData_of_def abc_tracked_def abc_def)
  have c: "onStepChange abc_tracked" by (simp add: abc_tracked_def)
  have e: "snd (navigate_event abc_tracked True (To ''b'') (initialState abc_tracked)) =
     [OnStepChange (Some ''b'') Map.empty 1, DispatchEvent ''wizard:step-change'' (Some ''b'') 1]"
    by (simp add: navigate_event_def commit_def toStep_def array_includes_def a s d c
        stepChangeEffect_def trackSteps_of_def t stepsIndexOf_def)
  from t a s e
    C1_step_change_events [OF t, of "To ''b''" "initialState abc_tracked" 0 "''b''"]
  show ?thesis by blast
qed

text \<open>
  The claim of C1 that no event is emitted when no step transition occurs fails: the
  effect runs after the first render, before any operation, and it runs again after
  \<open>updateData\<close>, which leaves the step where it was.
\<close>

theorem C1_counterexample:
  "events (snd (mount abc_tracked True)) =
     [DispatchEvent ''wizard:step-change'' (Some ''a'') 0] \<and>
   step (fst (updateData_event abc_tracked True [''x'' \<mapsto> 1] (initialState abc_tracked))) =
     step (initialState abc_tracked) \<and>
   events (snd (updateData_event abc_tracked True [''x'' \<mapsto> 1] (initialState abc_tracked))) =
     [DispatchEvent ''wizard:step-change'' (Some ''a'') 0]"
  by (simp add: mount_def updateData_event_def commit_def updateData_def events_def
      stepChangeEffect_def trackSteps_of_def stepsIndexOf_def initialState_def steps_def
      at_index_def abc_tracked_def abc_def)

text \<open>
  C4.  \<open>resetData\<close> stores its argument as the data when one is passed and the
  caller's \<open>initialData\<close> (the empty record when omitted) otherwise, whatever the data
  were, also after any sequence of operations; it sets the step to the first key and,
  when \<open>onStepChange\<close> is supplied, invokes it once with the first key, the data just
  stored and index \<open>0\<close>.
\<close>

theorem C4_resetData:
  "stepMapping p = (k, c) # rest \<Longrightarrow>
     resetData p (Some d) st =
       (\<lparr>data = d, step = Some k\<rparr>,
        if onStepChange p then [OnStepChange (Some k) d 0] else []) \<and>
     resetData p None st =
       (\<lparr>data = (case initialData p of None \<Rightarrow> Map.empty | Some d0 \<Rightarrow> d0), step = Some k\<rparr>,
        if onStepChange p
        then [OnStepChange (Some k) (case initialData p of None \<Rightarrow> Map.empty | Some d0 \<Rightarrow> d0) 0]
        else []) \<and>
     stepIndex p (fst (resetData p newData st)) = 0 \<and>
     data (fst (resetData p None (fst (run p as (initialState p))))) = data (initialState p)"
proof -
  assume "stepMapping p = (k, c) # rest"
  then have s: "steps p = k # map fst rest" by (simp add: steps_def)
  show ?thesis
    by (simp add: resetData_first [OF s] initialData_of_def initialState_def stepIndex_def
        stepsIndexOf_def s)
qed

theorem C4_witness:
  "stepMapping abc_tracked = (''a'', ''StepA'') # [(''b'', ''StepB''), (''c'', ''StepC'')] \<and>
   resetData abc_tracked (Some [''x'' \<mapsto> 9]) \<lparr>data = [''y'' \<mapsto> 1], step = Some ''c''\<rparr> =
     (\<lparr>data = [''x'' \<mapsto> 9], step = Some ''a''\<rparr>, [OnStepChange (Some ''a'') [''x'' \<mapsto> 9] 0]) \<and>
   resetData abc_tracked None \<lparr>data = [''y'' \<mapsto> 1], step = Some ''c''\<rparr> =
     (\<lparr>data = Map.empty, step = Some ''a''\<rparr>, [OnStepChange (Some ''a'') Map.empty 0])"
proof -
  have h: "stepMapping abc_tracked = (''a'', ''StepA'') # [(''b'', ''StepB''), (''c'', ''StepC'')]"
    by (simp add: abc_tracked_def abc_def)
  have c: "onStepChange abc_tracked" by (simp add: abc_tracked_def)
  have i: "initialData abc_tracked = None" by (simp add: abc_tracked_def abc_def)
  show ?thesis
    using h c i
      C4_resetData [OF h, of "[''x'' \<mapsto> 9]" "\<lparr>data = [''y'' \<mapsto> 1], step = Some ''c''\<rparr>" None "[]"]
    by simp
qed

text \<open>
  C5.  \<open>updateData\<close> merges its argument into the data: a field of the argument
  overwrites, every other field keeps its value; the step is unchanged and no callback
  is invoked.  So \<open>updateData({a: x})\<close> followed by \<open>updateData({b: y})\<close> leaves data
  holding both \<open>a: x\<close> and \<open>b: y\<close>.
\<close>

theorem C5_updateData_merges:
  "(\<forall>f. data (fst (updateData p newData st)) f =
         (case newData f of Some v \<Rightarrow> Some v | None \<Rightarrow> data st f)) \<and>
   step (fst (updateData p newData st)) = step st \<and>
   snd (updateData p newData st) = [] \<and>
   data (fst (run p [UpdateData [''a'' \<mapsto> x], UpdateData [''b'' \<mapsto> y]] st)) ''a'' = Some x \<and>
   data (fst (run p [UpdateData [''a'' \<mapsto> x], UpdateData [''b'' \<mapsto> y]] st)) ''b'' = Some y \<and>
   step (fst (run p [UpdateData [''a'' \<mapsto> x], UpdateData [''b'' \<mapsto> y]] st)) = step st \<and>
   snd (run p [UpdateData [''a'' \<mapsto> x], UpdateData [''b'' \<mapsto> y]] st) = []"
  by (simp add: updateData_def map_add_def Let_def split: option.splits)

theorem C5_witness:
  "data (fst (updateData abc_tracked [''a'' \<mapsto> 5] \<lparr>data = [''a'' \<mapsto> 1, ''z'' \<mapsto> 7], step = Some ''b''\<rparr>)) ''a'' = Some 5 \<and>
   data (fst (updateData abc_tracked [''a'' \<mapsto> 5] \<lparr>data = [''a'' \<mapsto> 1, ''z'' \<mapsto> 7], step = Some ''b''\<rparr>)) ''z'' = Some 7 \<and>
   step (fst (updateData abc_tracked [''a'' \<mapsto> 5] \<lparr>data = [''a'' \<mapsto> 1, ''z'' \<mapsto> 7], step = Some ''b''\<rparr>)) = Some ''b'' \<and>
   snd (updateData abc_tracked [''a'' \<mapsto> 5] \<lparr>data = [''a'' \<mapsto> 1, ''z'' \<mapsto> 7], step = Some ''b''\<rparr>) = []"
  using C5_updateData_merges [of abc_tracked "[''a'' \<mapsto> 5]"
      "\<lparr>data = [''a'' \<mapsto> 1, ''z'' \<mapsto> 7], step = Some ''b''\<rparr>" 0 0]
  by simp

text \<open>
  C6, amended.  From a key that is not the last one \<open>Object.keys\<close> enumerates,
  \<open>nextStep\<close>, called through the latest render, sets the step to the next key in
  that order and invokes \<open>onStepChange\<close>, when supplied, with that key, the current
  data and the new index.  For a mapping written with distinct keys that order is:
  array-index keys by ascending numeric value, then the other keys as written; it is
  the order as written when no key is an array index.  For the mapping \<open>{a, b, c}\<close>,
  starting at mount, two calls, each made through the render that followed the call
  before it, reach step \<open>c\<close> with index \<open>2\<close>, and the third call changes nothing and
  invokes nothing.
\<close>

theorem C6_nextStep_advances:
  "(distinct (steps p) \<and> Suc i < length (steps p) \<and> step st = Some (steps p ! i) \<longrightarrow>
      nextStep p st =
        (st\<lparr>step := Some (steps p ! Suc i)\<rparr>,
         if onStepChange p then [OnStepChange (Some (steps p ! Suc i)) (data st) (int i + 1)]
         else []) \<and>
      stepIndex p (fst (nextStep p st)) = int i + 1) \<and>
   (steps p = [''a'', ''b'', ''c''] \<longrightarrow>
      step (fst (run p [NextStep, NextStep] (initialState p))) = Some ''c'' \<and>
      stepIndex p (fst (run p [NextStep, NextStep] (initialState p))) = 2 \<and>
      nextStep p (fst (run p [NextStep, NextStep] (initialState p))) =
        (fst (run p [NextStep, NextStep] (initialState p)), []) \<and>
      fst (run p [NextStep, NextStep, NextStep] (initialState p)) =
        fst (run p [NextStep, NextStep] (initialState p)) \<and>
      snd (run p [NextStep, NextStep, NextStep] (initialState p)) =
        (if onStepChange p
         then [OnStepChange (Some ''b'') (data (initialState p)) 1,
               OnStepChange (Some ''c'') (data (initialState p)) 2]
         else [])) \<and>
   nextStep_of p st st = nextStep p st \<and>
   (distinct (map fst entries) \<and> stepMapping p = object_literal entries \<longrightarrow>
      distinct (steps p) \<and> steps p = own_keys_order (map fst entries) \<and>
      ((\<forall>k\<in>set (map fst entries). \<not> is_array_index k) \<longrightarrow> steps p = map fst entries))"
  using nextStep_advances_run [of p i st] nextStep_of_latest [of p st]
    steps_object_literal_order [of entries p]
  by blast

theorem C6_witness:
  "distinct (steps abc_tracked) \<and> Suc 0 < length (steps abc_tracked) \<and>
   Some ''a'' = Some (steps abc_tracked ! 0) \<and> steps abc_tracked = [''a'', ''b'', ''c''] \<and>
   distinct (map fst abc_written) \<and> stepMapping abc_tracked = object_literal abc_written \<and>
   map fst abc_written = [''a'', ''b'', ''c''] \<and>
   nextStep abc_tracked \<lparr>data = [''x'' \<mapsto> 1], step = Some ''a''\<rparr> =
     (\<lparr>data = [''x'' \<mapsto> 1], step = Some ''b''\<rparr>, [OnStepChange (Some ''b'') [''x'' \<mapsto> 1] 1]) \<and>
   step (fst (run abc_tracked [NextStep, NextStep, NextStep] (initialState abc_tracked))) = Some ''c'' \<and>
   stepIndex abc_tracked (fst (run abc_tracked [NextStep, NextStep, NextStep] (initialState abc_tracked))) = 2"
proof -
  have a: "steps abc_tracked = [''a'', ''b'', ''c'']"
    by (simp add: steps_def abc_tracked_def abc_def)
  have c: "onStepChange abc_tracked" by (simp add: abc_tracked_def)
  have w: "map fst abc_written = [''a'', ''b'', ''c'']" by (simp add: abc_written_def)
  have n: "\<forall>k\<in>set (map fst abc_written). \<not> is_array_index k" by code_simp
  have l: "stepMapping abc_tracked = object_literal abc_written" by code_simp
  from w l have e: "distinct (map fst abc_written) \<and>
      stepMapping abc_tracked = object_literal abc_written" by simp
  from a have h: "distinct (steps abc_tracked) \<and> Suc 0 < length (steps abc_tracked) \<and>
      step \<lparr>data = [''x'' \<mapsto> (1::nat)], step = Some ''a''\<rparr> = Some (steps abc_tracked ! 0)"
    by simp
  from C6_nextStep_advances [of abc_tracked 0 "\<lparr>data = [''x'' \<mapsto> 1], step = Some ''a''\<rparr>"
      abc_written] h a e n
  have k: "nextStep abc_tracked \<lparr>data = [''x'' \<mapsto> 1], step = Some ''a''\<rparr> =
        (\<lparr>data = [''x'' \<mapsto> 1], step = Some ''a''\<rparr>\<lparr>step := Some (steps abc_tracked ! Suc 0)\<rparr>,
         if onStepChange abc_tracked
         then [OnStepChange (Some (steps abc_tracked ! Suc 0))
                 (data \<lparr>data = [''x'' \<mapsto> 1], step = Some ''a''\<rparr>) (int 0 + 1)]
         else [])"
    and r: "step (fst (run abc_tracked [NextStep, NextStep] (initialState abc_tracked))) = Some ''c''"
    and r': "stepIndex abc_tracked (fst (run abc_tracked [NextStep, NextStep] (initialState abc_tracked))) = 2"
    and q: "fst (run abc_tracked [NextStep, NextStep, NextStep] (initialState abc_tracked)) =
        fst (run abc_tracked [NextStep, NextStep] (initialState abc_tracked))"
    and o: "steps abc_tracked = map fst abc_written"
    by blast+
  from k a c have k': "nextStep abc_tracked \<lparr>data = [''x'' \<mapsto> 1], step = Some ''a''\<rparr> =
     (\<lparr>data = [''x'' \<mapsto> 1], step = Some ''b''\<rparr>, [OnStepChange (Some ''b'') [''x'' \<mapsto> 1] 1])"
    by simp
  from a have h': "distinct (steps abc_tracked) \<and> Suc 0 < length (steps abc_tracked) \<and>
      Some ''a'' = Some (steps abc_tracked ! 0)" by simp
  from h' a e w k' r r' q show ?thesis by (simp only:)
qed

text \<open>
  The claim of C6 fails in two ways.  In the mapping written \<open>{b, 2, 1}\<close> the key \<open>b\<close>
  is followed by \<open>2\<close> as written, yet \<open>nextStep\<close> at \<open>b\<close> changes nothing and invokes
  nothing.  And three calls of \<open>nextStep\<close> made inside one event, in the mapping
  \<open>{a, b, c}\<close> at mount, all read step \<open>a\<close>: they end on \<open>b\<close>, with three equal
  callbacks.
\<close>

theorem C6_counterexample:
  "stepMapping b21 = object_literal b21_written \<and>
   map fst b21_written = [''b'', ''2'', ''1''] \<and>
   onStepChange b21 \<and>
   nextStep b21 \<lparr>data = data (initialState b21), step = Some ''b''\<rparr> =
     (\<lparr>data = data (initialState b21), step = Some ''b''\<rparr>, []) \<and>
   nextStep_calls abc_tracked 3 (initialState abc_tracked) (initialState abc_tracked) =
     (\<lparr>data = data (initialState abc_tracked), step = Some ''b''\<rparr>,
      [OnStepChange (Some ''b'') (data (initialState abc_tracked)) 1,
       OnStepChange (Some ''b'') (data (initialState abc_tracked)) 1,
       OnStepChange (Some ''b'') (data (initialState abc_tracked)) 1])"
proof -
  have s: "steps b21 = [''1'', ''2'', ''b'']" by code_simp
  have n: "nextStep b21 \<lparr>data = data (initialState b21), step = Some ''b''\<rparr> =
     (\<lparr>data = data (initialState b21), step = Some ''b''\<rparr>, [])"
    by (simp add: nextStep_def s stepsIndexOf_def Let_def)
  have a: "steps abc_tracked = [''a'', ''b'', ''c'']"
    by (simp add: steps_def abc_tracked_def abc_def)
  have i: "step (initialState abc_tracked) = Some ''a''"
    by (simp add: initialState_def a at_index_def)
  have c: "onStepChange abc_tracked" by (simp add: abc_tracked_def)
  have t: "nextStep_calls abc_tracked 3 (initialState abc_tracked) (initialState abc_tracked) =
     (\<lparr>data = data (initialState abc_tracked), step = Some ''b''\<rparr>,
      [OnStepChange (Some ''b'') (data (initialState abc_tracked)) 1,
       OnStepChange (Some ''b'') (data (initialState abc_tracked)) 1,
       OnStepChange (Some ''b'') (data (initialState abc_tracked)) 1])"
    by (simp add: eval_nat_numeral nextStep_of_def a i c stepsIndexOf_def at_index_def Let_def)
  from n t show ?thesis by (simp add: b21_def b21_written_def abc_tracked_def)
qed

text \<open>
  C8.  \<open>useWizardContext\<close> in a component with no enclosing provider raises the
  error; inside a provider it returns the value of the innermost one.  The step-view
  rendered by the wizard sits inside exactly one provider, whose value is the
  wizard's context value.
\<close>

theorem C8_useWizardContext:
  "useWizardContext ([] :: 'v WizardContextType list) =
     Inl (Error ''useWizardContext must be used within a Wizard component'') \<and>
   useWizardContext ((v :: 'v WizardContextType) # outer) = Inr v \<and>
   scope_of_view (Wizard (p :: ('c, 'v) WizardProps) st) [] =
     (case CurrentStepComponent p st of None \<Rightarrow> None | Some c \<Rightarrow> Some [contextValue p st])"
  by (simp add: useWizardContext_def useContext_def Wizard_def WizardProvider_def
      split: option.splits)

theorem C8_witness:
  "useWizardContext ([] :: nat WizardContextType list) =
     Inl (Error ''useWizardContext must be used within a Wizard component'') \<and>
   scope_of_view (Wizard abc (initialState abc)) [] = Some [contextValue abc (initialState abc)] \<and>
   useWizardContext [contextValue abc (initialState abc)] = Inr (contextValue abc (initialState abc)) \<and>
   ctx_step (contextValue abc (initialState abc)) = Some ''a'' \<and>
   scope_of_view (Wizard no_steps (initialState no_steps)) [] = None"
proof -
  have n: "CurrentStepComponent no_steps (initialState no_steps) = None"
    by (simp add: CurrentStepComponent_def no_steps_def)
  have a: "CurrentStepComponent abc (initialState abc) = Some ''StepA''"
    by (simp add: CurrentStepComponent_def initialState_def steps_def at_index_def
        property_key_def abc_def)
  have s: "ctx_step (contextValue abc (initialState abc)) = Some ''a''"
    by (simp add: contextValue_def initialState_def steps_def at_index_def abc_def)
  from a C8_useWizardContext [of "contextValue abc (initialState abc)" "[]" abc "initialState abc"]
  have w: "useWizardContext ([] :: nat WizardContextType list) =
     Inl (Error ''useWizardContext must be used within a Wizard component'')"
    and x: "scope_of_view (Wizard abc (initialState abc)) [] =
      Some [contextValue abc (initialState abc)]"
    and y: "useWizardContext [contextValue abc (initialState abc)] =
      Inr (contextValue abc (initialState abc))"
    by simp_all
  from n C8_useWizardContext [of "contextValue abc (initialState abc)" "[]" no_steps
      "initialState no_steps"]
  have z: "scope_of_view (Wizard no_steps (initialState no_steps)) [] = None"
    by simp
  from w x y s z show ?thesis by blast
qed

text \<open>
  C9.  When the step mapping owns no step-view under the current step, the wizard
  renders the \<open>Step not found\<close> placeholder; otherwise it renders the step-view inside
  the provider.  Rendering yields an element in both cases, never a fault.  In a
  state reached from mount the placeholder is rendered exactly when the step mapping
  is empty.
\<close>

theorem C9_not_found_fallback:
  "(CurrentStepComponent p st = None \<longrightarrow>
      Wizard p st = Div (parentTestId p @ ''-not-found'') ''Step not found'') \<and>
   (CurrentStepComponent p st = Some c \<longrightarrow>
      Wizard p st =
        ContextProvider (contextValue p st) (parentTestId p @ ''-provider-provider'')
          (StepView c (contextValue p st) (parentTestId p @ ''-step-'' @ property_key (step st)))) \<and>
   ((\<exists>t s. Wizard p (fst (run p as (initialState p))) = Div t s) \<longleftrightarrow> stepMapping p = [])"
  using Wizard_not_found [of p st] Wizard_found [of p st c] Wizard_reachable [of p as]
  by blast

theorem C9_witness:
  "CurrentStepComponent no_steps (initialState no_steps) = None \<and>
   Wizard no_steps (initialState no_steps) = Div ''wizard-not-found'' ''Step not found'' \<and>
   CurrentStepComponent abc (initialState abc) = Some ''StepA'' \<and>
   Wizard abc (initialState abc) =
     ContextProvider (contextValue abc (initialState abc)) ''wizard-provider-provider''
       (StepView ''StepA'' (contextValue abc (initialState abc)) ''wizard-step-a'')"
proof -
  have n: "CurrentStepComponent no_steps (initialState no_steps) = None"
    by (simp add: CurrentStepComponent_def no_steps_def)
  have a: "CurrentStepComponent abc (initialState abc) = Some ''StepA''"
    by (simp add: CurrentStepComponent_def initialState_def steps_def at_index_def
        property_key_def abc_def)
  have s: "step (initialState abc) = Some ''a''"
    by (simp add: initialState_def steps_def at_index_def abc_def)
  have t: "parentTestId no_steps = ''wizard''" "parentTestId abc = ''wizard''"
    by (simp_all add: parentTestId_def or_default_def no_steps_def abc_def)
  show ?thesis
    using n a
      C9_not_found_fallback [of no_steps "initialState no_steps" "''StepA''" "[]"]
      C9_not_found_fallback [of abc "initialState abc" "''StepA''" "[]"]
    by (simp add: t s property_key_def)
qed

end
